theory Spec2Isabelle
  imports Main "HOL-Library.AList"
begin

section \<open>Data model\<close>

text \<open>
  The resource \<open>azurerm_postgresql_flexible_server_firewall_rules\<close> manages the whole
  collection of firewall rules of one PostgreSQL flexible server.  \<open>Rule\<close> and
  \<open>FlexibleServerFirewallRulesModel\<close> are the structs of the resource file; the other
  records are the SDK structs the resource reads and writes (a Go \<open>*string\<close> is a
  \<open>string option\<close>, \<open>None\<close> for \<open>nil\<close>).
\<close>

record Rule =
  Name :: string
  StartIPAddress :: string
  EndIPAddress :: string

record FlexibleServerFirewallRulesModel =
  ServerID :: string
  Rule :: "Rule list"

record FirewallRuleProperties =
  EndIPAddress :: string
  StartIPAddress :: string

record FirewallRule =
  Id :: "string option"
  Name :: "string option"
  Properties :: FirewallRuleProperties

record FlexibleServerId =
  SubscriptionId :: string
  ResourceGroupName :: string
  FlexibleServerName :: string

record FirewallRuleId = FlexibleServerId +
  FirewallRuleName :: string

text \<open>
  Go errors.  \<open>ImportAsExistsError\<close> is \<open>tf.ImportAsExistsError(resource type, id)\<close>,
  \<open>Errorf\<close> the wrapping \<open>fmt.Errorf(".. %s: %+v", id, err)\<close> of \<open>Delete\<close>,
  \<open>ParseError\<close> what an identifier parser returns for an input it rejects, and
  \<open>RemoteError\<close> any error of a collaborator (decoder, remote store).
\<close>

datatype error =
    ImportAsExistsError string string
  | Errorf string FlexibleServerId error
  | ParseError string
  | RemoteError string

definition maxConcurrency :: nat where
  "maxConcurrency = 100"

definition ResourceType :: string where
  "ResourceType = ''azurerm_postgresql_flexible_server_firewall_rules''"

text \<open>The top-level attributes that \<open>Arguments\<close> declares in the schema.\<close>

definition Arguments :: "string list" where
  "Arguments = [''server_id'', ''rule'']"

definition pointer_From :: "string option \<Rightarrow> string" where
  "pointer_From p = (case p of None \<Rightarrow> [] | Some v \<Rightarrow> v)"

section \<open>Resource identifiers\<close>

text \<open>
  Modelled from the spec: the identifier package of the SDK (\<open>NewFlexibleServerID\<close>,
  \<open>NewFirewallRuleID\<close>, the \<open>ID\<close> methods and the three parsers) is called by the
  resource but is not among the sources.  The spec says that a RuleID is derived
  deterministically from \<open>(ParentID, name)\<close> and leaves identifier parsing to a
  collaborator.  The constructors store their arguments in the fields they are named
  after.
\<close>

definition NewFlexibleServerID :: "string \<Rightarrow> string \<Rightarrow> string \<Rightarrow> FlexibleServerId" where
  "NewFlexibleServerID subscriptionId resourceGroupName flexibleServerName =
     \<lparr>SubscriptionId = subscriptionId, ResourceGroupName = resourceGroupName,
      FlexibleServerName = flexibleServerName\<rparr>"

definition NewFirewallRuleID ::
  "string \<Rightarrow> string \<Rightarrow> string \<Rightarrow> string \<Rightarrow> FirewallRuleId" where
  "NewFirewallRuleID subscriptionId resourceGroupName flexibleServerName firewallRuleName =
     \<lparr>SubscriptionId = subscriptionId, ResourceGroupName = resourceGroupName,
      FlexibleServerName = flexibleServerName, FirewallRuleName = firewallRuleName\<rparr>"

text \<open>
  Modelled from the spec: the \<open>ID\<close> methods, missing from the sources, write the Azure
  resource path of the identifier, which alternates fixed segments and the fields.
\<close>

definition FlexibleServerId_ID :: "FlexibleServerId \<Rightarrow> string" where
  "FlexibleServerId_ID sid =
     ''/subscriptions/'' @ SubscriptionId sid @
     ''/resourceGroups/'' @ ResourceGroupName sid @
     ''/providers/Microsoft.DBforPostgreSQL/flexibleServers/'' @ FlexibleServerName sid"

definition FirewallRuleId_ID :: "FirewallRuleId \<Rightarrow> string" where
  "FirewallRuleId_ID rid =
     ''/subscriptions/'' @ SubscriptionId rid @
     ''/resourceGroups/'' @ ResourceGroupName rid @
     ''/providers/Microsoft.DBforPostgreSQL/flexibleServers/'' @ FlexibleServerName rid @
     ''/firewallRules/'' @ FirewallRuleName rid"

text \<open>
  Modelled from the spec: the parsers, missing from the sources, read that path back.
  They split the input at \<open>/\<close>, compare the fixed segments (ignoring ASCII case when
  parsing insensitively) and take the other segments, which must not be empty, as
  they stand; any other input is an error.
\<close>

datatype segment = Static string | UserSpecified

definition to_lower :: "char \<Rightarrow> char" where
  "to_lower c =
     (case map_of (zip ''ABCDEFGHIJKLMNOPQRSTUVWXYZ'' ''abcdefghijklmnopqrstuvwxyz'') c of
        None \<Rightarrow> c
      | Some l \<Rightarrow> l)"

fun split_on :: "char \<Rightarrow> string \<Rightarrow> string list" where
  "split_on c [] = [[]]"
| "split_on c (x # xs) =
     (if x = c then [] # split_on c xs
      else (case split_on c xs of [] \<Rightarrow> [[x]] | y # ys \<Rightarrow> (x # y) # ys))"

fun match_segments :: "bool \<Rightarrow> segment list \<Rightarrow> string list \<Rightarrow> string list option" where
  "match_segments insensitively [] [] = Some []"
| "match_segments insensitively (Static fixed # segs) (v # vs) =
     (if (if insensitively then map to_lower v = map to_lower fixed else v = fixed)
      then match_segments insensitively segs vs else None)"
| "match_segments insensitively (UserSpecified # segs) (v # vs) =
     (if v = [] then None
      else (case match_segments insensitively segs vs of
              None \<Rightarrow> None
            | Some parsed \<Rightarrow> Some (v # parsed)))"
| "match_segments insensitively segs vs = None"

definition parse_path :: "bool \<Rightarrow> segment list \<Rightarrow> string \<Rightarrow> string list option" where
  "parse_path insensitively segs input =
     (case split_on CHR ''/'' input of
        [] \<Rightarrow> None
      | lead # vs \<Rightarrow> if lead = [] then match_segments insensitively segs vs else None)"

definition FlexibleServerId_Segments :: "segment list" where
  "FlexibleServerId_Segments =
     [Static ''subscriptions'', UserSpecified, Static ''resourceGroups'', UserSpecified,
      Static ''providers'', Static ''Microsoft.DBforPostgreSQL'',
      Static ''flexibleServers'', UserSpecified]"

definition FirewallRuleId_Segments :: "segment list" where
  "FirewallRuleId_Segments =
     FlexibleServerId_Segments @ [Static ''firewallRules'', UserSpecified]"

definition ParseFlexibleServerID :: "string \<Rightarrow> error + FlexibleServerId" where
  "ParseFlexibleServerID input =
     (case parse_path False FlexibleServerId_Segments input of
        Some [s, g, n] \<Rightarrow> Inr (NewFlexibleServerID s g n)
      | _ \<Rightarrow> Inl (ParseError input))"

definition parseFirewallRuleID :: "bool \<Rightarrow> string \<Rightarrow> error + FirewallRuleId" where
  "parseFirewallRuleID insensitively input =
     (case parse_path insensitively FirewallRuleId_Segments input of
        Some [s, g, n, r] \<Rightarrow> Inr (NewFirewallRuleID s g n r)
      | _ \<Rightarrow> Inl (ParseError input))"

definition ParseFirewallRuleID :: "string \<Rightarrow> error + FirewallRuleId" where
  "ParseFirewallRuleID = parseFirewallRuleID False"

definition ParseFirewallRuleIDInsensitively :: "string \<Rightarrow> error + FirewallRuleId" where
  "ParseFirewallRuleIDInsensitively = parseFirewallRuleID True"

section \<open>The desired map and the diff\<close>

text \<open>
  \<open>Create\<close> and \<open>Update\<close> build the same map from rule identifier strings to the
  rule to send; \<open>Create\<close> takes the subscription from the parsed server identifier,
  \<open>Update\<close> from the client's account.  A Go map is an association list with one
  entry per key (\<open>AList.update\<close> overwrites the entry of a key that is present); the
  order in which Go ranges over it is not fixed, and here it is the order of insertion.
\<close>

definition fwRule :: "Rule \<Rightarrow> FirewallRule" where
  "fwRule rule =
     \<lparr>Id = None, Name = None,
      Properties = \<lparr>EndIPAddress = Rule.EndIPAddress rule,
                    StartIPAddress = Rule.StartIPAddress rule\<rparr>\<rparr>"

definition firewallRules ::
  "string \<Rightarrow> FlexibleServerId \<Rightarrow> Rule list \<Rightarrow> (string \<times> FirewallRule) list" where
  "firewallRules subscriptionId sid rules =
     fold (\<lambda>rule m.
             AList.update
               (FirewallRuleId_ID
                  (NewFirewallRuleID subscriptionId (ResourceGroupName sid)
                     (FlexibleServerName sid) (Rule.Name rule)))
               (fwRule rule) m)
          rules []"

text \<open>
  The loop of \<open>Update\<close> over the listed rules: a rule whose \<open>Id\<close> parses and whose
  identifier string is not a key of the desired map is appended to \<open>rulesToDelete\<close>.
\<close>

fun rulesToDelete :: "(string \<times> FirewallRule) list \<Rightarrow> FirewallRule list \<Rightarrow> FirewallRuleId list" where
  "rulesToDelete fw [] = []"
| "rulesToDelete fw (v # vs) =
     (case ParseFirewallRuleIDInsensitively (pointer_From (Id v)) of
        Inl err \<Rightarrow> rulesToDelete fw vs
      | Inr cId \<Rightarrow>
          (if map_of fw (FirewallRuleId_ID cId) = None then cId # rulesToDelete fw vs
           else rulesToDelete fw vs))"

section \<open>The goroutines of one call\<close>

text \<open>
  Every phase of \<open>Create\<close>, \<open>Update\<close> and \<open>Delete\<close> is the same pattern: a loop
  starts one goroutine \<open>batchCreateOrUpdate\<close> or \<open>batchDelete\<close> per item, a closer
  goroutine waits for the wait group and closes \<open>errs\<close>, and the calling goroutine
  ranges over \<open>errs\<close>, returning the first error that is not \<open>nil\<close>, and then waits
  for the wait group.  A worker is at one of these points of its body:
  \<^item> \<open>Spawned\<close>: before \<open>semaphore <- struct{}{}\<close>;
  \<^item> \<open>Holding\<close>: it holds a permit and its remote call is in flight;
  \<^item> \<open>Sending r\<close>: the call returned \<open>r\<close>, and it is blocked in \<open>errs <- r\<close>
    (\<open>errs\<close> has no buffer);
  \<^item> \<open>Sent r\<close>: the range loop received \<open>r\<close>; before \<open><-semaphore\<close>;
  \<^item> \<open>Released r\<close>: the permit is given back; before the deferred \<open>wg.Done()\<close>;
  \<^item> \<open>Finished r\<close>: the goroutine has ended.
\<close>

datatype job =
    batchCreateOrUpdate FirewallRuleId FirewallRule
  | batchDelete FirewallRuleId

datatype wstate =
    Spawned
  | Holding
  | Sending "error option"
  | Sent "error option"
  | Released "error option"
  | Finished "error option"

text \<open>
  The calling goroutine is in the range loop (\<open>Ranging\<close>), in the \<open>wg.Wait()\<close> after
  it (\<open>Waiting\<close>), has returned, or has panicked (which ends the process).
\<close>

datatype mstate = Ranging | Waiting | Returned "error option" | Panicked

datatype event =
    locks_ByName string
  | locks_UnlockByName string
  | ListByServerComplete_call FlexibleServerId
  | SetID FlexibleServerId

text \<open>
  The state of one call: what it has done outside the phases (\<open>events\<close>), the calling
  goroutine, the \<open>errs\<close> channel of the phase that runs and whether its closer
  goroutine was started, the workers of that phase and those of the phases before it
  (they share \<open>semaphore\<close> and \<open>wg\<close> in \<open>Update\<close>), and the maps the later dispatch
  loops of the function will range over.
\<close>

record system =
  events :: "event list"
  main :: mstate
  errs_closed :: bool
  closer :: bool
  workers :: "(job \<times> wstate) list"
  earlier :: "(job \<times> wstate) list"
  pending :: "(string \<times> FirewallRule) list list"
  lock :: string
  on_success :: "event list"

fun holds_permit :: "wstate \<Rightarrow> bool" where
  "holds_permit Holding = True"
| "holds_permit (Sending r) = True"
| "holds_permit (Sent r) = True"
| "holds_permit w = False"

fun delivered :: "wstate \<Rightarrow> bool" where
  "delivered (Sent r) = True"
| "delivered (Released r) = True"
| "delivered (Finished r) = True"
| "delivered w = False"

fun finished :: "wstate \<Rightarrow> bool" where
  "finished (Finished r) = True"
| "finished w = False"

definition count :: "(wstate \<Rightarrow> bool) \<Rightarrow> (job \<times> wstate) list \<Rightarrow> nat" where
  "count P ws = length (filter (\<lambda>jw. P (snd jw)) ws)"

text \<open>Permits held: the length of \<open>semaphore\<close>, which all phases of a call share.\<close>

definition held :: "system \<Rightarrow> nat" where
  "held s = count holds_permit (earlier s @ workers s)"

text \<open>Remote calls in flight.\<close>

definition in_flight :: "system \<Rightarrow> nat" where
  "in_flight s = count (\<lambda>w. w = Holding) (earlier s @ workers s)"

text \<open>Results the range loop of the running phase has received.\<close>

definition collected :: "system \<Rightarrow> nat" where
  "collected s = count delivered (workers s)"

text \<open>The wait group's counter is zero.\<close>

definition wg_zero :: "system \<Rightarrow> bool" where
  "wg_zero s = list_all (\<lambda>jw. finished (snd jw)) (earlier s @ workers s)"

definition at :: "nat \<Rightarrow> system \<Rightarrow> wstate option" where
  "at i s = (if i < length (workers s) then Some (snd (workers s ! i)) else None)"

definition set_worker :: "nat \<Rightarrow> wstate \<Rightarrow> system \<Rightarrow> system" where
  "set_worker i w s = s\<lparr>workers := (workers s)[i := (fst (workers s ! i), w)]\<rparr>"

text \<open>A return of the calling goroutine runs the deferred \<open>locks.UnlockByName\<close>.\<close>

definition return_with :: "error option \<Rightarrow> system \<Rightarrow> system" where
  "return_with r s =
     s\<lparr>main := Returned r, events := events s @ [locks_UnlockByName (lock s)]\<rparr>"

text \<open>
  The dispatch loop of an upsert phase.  \<open>fid, _ := ParseFirewallRuleID(i)\<close> drops
  the error, and \<open>*fid\<close> panics when \<open>fid\<close> is \<open>nil\<close>: the goroutines of the
  entries before that one have been started.  The result holds the workers and whether
  the loop panicked.  A panic runs the deferred \<open>locks.UnlockByName\<close> before it ends
  the process.
\<close>

fun spawnCreateOrUpdate :: "(string \<times> FirewallRule) list \<Rightarrow> (job \<times> wstate) list \<times> bool" where
  "spawnCreateOrUpdate [] = ([], False)"
| "spawnCreateOrUpdate ((i, f) # rest) =
     (case ParseFirewallRuleID i of
        Inl err \<Rightarrow> ([], True)
      | Inr fid \<Rightarrow>
          (case spawnCreateOrUpdate rest of
             (ws, panicked) \<Rightarrow> ((batchCreateOrUpdate fid f, Spawned) # ws, panicked)))"

definition dispatchCreateOrUpdate :: "(string \<times> FirewallRule) list \<Rightarrow> system \<Rightarrow> system" where
  "dispatchCreateOrUpdate fw s =
     (case spawnCreateOrUpdate fw of
        (ws, panicked) \<Rightarrow>
          s\<lparr>earlier := earlier s @ workers s, workers := ws, errs_closed := False,
            closer := \<not> panicked, main := (if panicked then Panicked else Ranging),
            events := (if panicked then events s @ [locks_UnlockByName (lock s)]
                       else events s)\<rparr>)"

definition dispatchDelete :: "FirewallRuleId list \<Rightarrow> system \<Rightarrow> system" where
  "dispatchDelete rules s =
     s\<lparr>workers := map (\<lambda>f. (batchDelete f, Spawned)) rules, errs_closed := False,
       closer := True, main := Ranging\<rparr>"

text \<open>
  One step of one goroutine.  The scheduler picks the goroutine, and the remote store
  picks the result of a call that returns (\<open>Complete i r\<close>); a step that its goroutine
  cannot take in the state leaves the state as it is.
  \<^item> \<open>Acquire i\<close>: worker \<open>i\<close> sends on \<open>semaphore\<close>, which has room for
    \<open>maxConcurrency\<close> values;
  \<^item> \<open>Complete i r\<close>: its \<open>CreateOrUpdateThenPoll\<close> or \<open>DeleteThenPoll\<close> returns \<open>r\<close>;
  \<^item> \<open>Deliver i\<close>: its send on \<open>errs\<close> meets the receive of the range loop, which
    returns the value when it is an error;
  \<^item> \<open>Release i\<close>: it receives from \<open>semaphore\<close>;
  \<^item> \<open>Finish i\<close>: its deferred \<open>wg.Done()\<close>;
  \<^item> \<open>Close\<close>: the closer's \<open>wg.Wait()\<close> returns and it closes \<open>errs\<close>;
  \<^item> \<open>Drain\<close>: the range loop ends on the closed channel;
  \<^item> \<open>Proceed\<close>: the \<open>wg.Wait()\<close> of the calling goroutine returns, and it starts
    the next phase or returns \<open>nil\<close>.
\<close>

datatype action =
    Acquire nat
  | Complete nat "error option"
  | Deliver nat
  | Release nat
  | Finish nat
  | Close
  | Drain
  | Proceed

fun step :: "action \<Rightarrow> system \<Rightarrow> system" where
  "step (Acquire i) s =
     (if main s \<noteq> Panicked \<and> at i s = Some Spawned \<and> held s < maxConcurrency
      then set_worker i Holding s else s)"
| "step (Complete i r) s =
     (if main s \<noteq> Panicked \<and> at i s = Some Holding
      then set_worker i (Sending r) s else s)"
| "step (Deliver i) s =
     (if main s = Ranging
      then (case at i s of
              Some (Sending None) \<Rightarrow> set_worker i (Sent None) s
            | Some (Sending (Some err)) \<Rightarrow>
                return_with (Some err) (set_worker i (Sent (Some err)) s)
            | _ \<Rightarrow> s)
      else s)"
| "step (Release i) s =
     (if main s \<noteq> Panicked
      then (case at i s of Some (Sent r) \<Rightarrow> set_worker i (Released r) s | _ \<Rightarrow> s)
      else s)"
| "step (Finish i) s =
     (if main s \<noteq> Panicked
      then (case at i s of Some (Released r) \<Rightarrow> set_worker i (Finished r) s | _ \<Rightarrow> s)
      else s)"
| "step Close s =
     (if main s \<noteq> Panicked \<and> closer s \<and> \<not> errs_closed s \<and> wg_zero s
      then s\<lparr>errs_closed := True\<rparr> else s)"
| "step Drain s =
     (if main s = Ranging \<and> errs_closed s then s\<lparr>main := Waiting\<rparr> else s)"
| "step Proceed s =
     (if main s = Waiting \<and> wg_zero s
      then (case pending s of
              [] \<Rightarrow> return_with None (s\<lparr>events := events s @ on_success s\<rparr>)
            | fw # rest \<Rightarrow> dispatchCreateOrUpdate fw (s\<lparr>pending := rest\<rparr>))
      else s)"

definition exec :: "action list \<Rightarrow> system \<Rightarrow> system" where
  "exec sched s = fold step sched s"

section \<open>The resource functions\<close>

text \<open>
  What a call reads from its \<open>metadata\<close>: the result of \<open>metadata.Decode\<close>, of
  \<open>metadata.ResourceData.HasChange\<close> and \<open>metadata.ResourceData.Id\<close>, the
  subscription of the client's account, and what the remote store answers to
  \<open>ListByServerComplete\<close>.
\<close>

record ResourceMetaData =
  Decode :: "error + FlexibleServerFirewallRulesModel"
  HasChange :: "string \<Rightarrow> bool"
  ResourceData_Id :: string
  Client_Account_SubscriptionId :: string
  ListByServerComplete :: "FlexibleServerId \<Rightarrow> error + FirewallRule list"

text \<open>The call returned before it took the lock.\<close>

definition returned :: "error option \<Rightarrow> system" where
  "returned r =
     \<lparr>events = [], main = Returned r, errs_closed = False, closer = False, workers = [],
      earlier = [], pending = [], lock = [], on_success = []\<rparr>"

text \<open>
  \<open>locks.ByName\<close> on the server's name, with the unlock deferred.  The second
  argument of both calls is a constant of the package and is left out of the events.
\<close>

definition locked :: "FlexibleServerId \<Rightarrow> system" where
  "locked sid =
     \<lparr>events = [locks_ByName (FlexibleServerName sid)], main = Ranging, errs_closed = False,
      closer = False, workers = [], earlier = [], pending = [],
      lock = FlexibleServerName sid, on_success = []\<rparr>"

definition listed :: "FlexibleServerId \<Rightarrow> system \<Rightarrow> system" where
  "listed sid s = s\<lparr>events := events s @ [ListByServerComplete_call sid]\<rparr>"

definition Create :: "ResourceMetaData \<Rightarrow> system" where
  "Create metadata =
     (case Decode metadata of
        Inl err \<Rightarrow> returned (Some err)
      | Inr model \<Rightarrow>
     (case ParseFlexibleServerID (ServerID model) of
        Inl err \<Rightarrow> returned (Some err)
      | Inr sid \<Rightarrow>
     (case ListByServerComplete metadata sid of
        Inl err \<Rightarrow> return_with (Some err) (listed sid (locked sid))
      | Inr items \<Rightarrow>
          if length items \<noteq> 0
          then return_with (Some (ImportAsExistsError ResourceType (FlexibleServerId_ID sid)))
                 (listed sid (locked sid))
          else dispatchCreateOrUpdate (firewallRules (SubscriptionId sid) sid (Rule model))
                 ((listed sid (locked sid))\<lparr>on_success := [SetID sid]\<rparr>))))"

definition Update :: "ResourceMetaData \<Rightarrow> system" where
  "Update metadata =
     (case Decode metadata of
        Inl err \<Rightarrow> returned (Some err)
      | Inr model \<Rightarrow>
     (case ParseFlexibleServerID (ServerID model) of
        Inl err \<Rightarrow> returned (Some err)
      | Inr sid \<Rightarrow>
          if HasChange metadata ''firewall_rule''
          then (case ListByServerComplete metadata sid of
                  Inl err \<Rightarrow> return_with (Some err) (listed sid (locked sid))
                | Inr currentFirewallRules \<Rightarrow>
                    dispatchDelete
                      (rulesToDelete
                         (firewallRules (Client_Account_SubscriptionId metadata) sid (Rule model))
                         currentFirewallRules)
                      ((listed sid (locked sid))
                         \<lparr>pending :=
                            [firewallRules (Client_Account_SubscriptionId metadata) sid
                               (Rule model)]\<rparr>))
          else return_with None (locked sid)))"

text \<open>
  The dispatch loop of \<open>Delete\<close> returns at the first listed rule whose \<open>Id\<close> does not
  parse; the goroutines of the rules before it have been started.
\<close>

fun spawnDelete :: "FirewallRule list \<Rightarrow> (job \<times> wstate) list \<times> error option" where
  "spawnDelete [] = ([], None)"
| "spawnDelete (v # vs) =
     (case ParseFirewallRuleID (pointer_From (Id v)) of
        Inl err \<Rightarrow> ([], Some err)
      | Inr ruleId \<Rightarrow>
          (case spawnDelete vs of
             (ws, failure) \<Rightarrow> ((batchDelete ruleId, Spawned) # ws, failure)))"

definition Delete :: "ResourceMetaData \<Rightarrow> system" where
  "Delete metadata =
     (case ParseFlexibleServerID (ResourceData_Id metadata) of
        Inl err \<Rightarrow> returned (Some err)
      | Inr sid \<Rightarrow>
     (case ListByServerComplete metadata sid of
        Inl err \<Rightarrow> return_with (Some err) (listed sid (locked sid))
      | Inr items \<Rightarrow>
     (case spawnDelete items of
        (ws, Some err) \<Rightarrow>
          return_with
            (Some (Errorf ''deleting Firewall Rules'' sid err))
            ((listed sid (locked sid))\<lparr>workers := ws\<rparr>)
      | (ws, None) \<Rightarrow>
          (listed sid (locked sid))\<lparr>workers := ws, closer := True, main := Ranging\<rparr>)))"

section \<open>Predicates on runs\<close>

text \<open>A job of the upsert phase; a worker whose remote call returned an error.\<close>

fun upsert :: "job \<Rightarrow> bool" where
  "upsert (batchCreateOrUpdate fid f) = True"
| "upsert (batchDelete fid) = False"

fun failed :: "wstate \<Rightarrow> bool" where
  "failed (Sending r) = (r \<noteq> None)"
| "failed (Sent r) = (r \<noteq> None)"
| "failed (Released r) = (r \<noteq> None)"
| "failed (Finished r) = (r \<noteq> None)"
| "failed w = False"

text \<open>A result that the range loop received was \<open>nil\<close>.\<close>

fun result_ok :: "wstate \<Rightarrow> bool" where
  "result_ok (Sent r) = (r = None)"
| "result_ok (Released r) = (r = None)"
| "result_ok (Finished r) = (r = None)"
| "result_ok w = True"

text \<open>
  What every state of a call satisfies: the permits held are within the capacity of
  \<open>semaphore\<close>; the workers of earlier phases have ended with \<open>nil\<close>; \<open>errs\<close> is
  closed only after every worker has ended; the calling goroutine waits only after
  \<open>errs\<close> was closed, has received only \<open>nil\<close> while it has not returned, and returns
  \<open>nil\<close> only after every worker has ended with \<open>nil\<close>.
\<close>

definition coherent :: "system \<Rightarrow> bool" where
  "coherent s \<longleftrightarrow>
     held s \<le> maxConcurrency \<and>
     list_all (\<lambda>jw. snd jw = Finished None) (earlier s) \<and>
     (errs_closed s \<longrightarrow> list_all (\<lambda>jw. finished (snd jw)) (workers s)) \<and>
     (main s = Waiting \<longrightarrow> errs_closed s) \<and>
     (main s = Ranging \<or> main s = Waiting \<longrightarrow>
        list_all (\<lambda>jw. result_ok (snd jw)) (workers s)) \<and>
     (main s = Returned None \<longrightarrow> list_all (\<lambda>jw. snd jw = Finished None) (workers s))"

text \<open>
  The two phases of a call that started in \<open>s0\<close> with its delete workers: either the
  workers are still those jobs, or those jobs are the earlier workers and the workers
  that run are upserts.
\<close>

definition in_delete_phase :: "system \<Rightarrow> system \<Rightarrow> bool" where
  "in_delete_phase s0 s \<longleftrightarrow>
     earlier s = [] \<and> map fst (workers s) = map fst (workers s0) \<and> pending s = pending s0"

definition in_upsert_phase :: "system \<Rightarrow> system \<Rightarrow> bool" where
  "in_upsert_phase s0 s \<longleftrightarrow>
     map fst (earlier s) = map fst (workers s0) \<and>
     list_all (\<lambda>jw. upsert (fst jw)) (workers s) \<and> pending s = []"

text \<open>The largest number of remote calls in flight in the states of a run.\<close>

fun peak :: "action list \<Rightarrow> system \<Rightarrow> nat" where
  "peak [] s = in_flight s"
| "peak (a # sched) s = max (in_flight s) (peak sched (step a s))"

text \<open>
  The schedule in which worker \<open>i\<close> runs from its start to its end before worker
  \<open>i + 1\<close> starts, every call succeeding, and the calling goroutine then leaves the
  phase.
\<close>

definition one_by_one :: "nat \<Rightarrow> action list" where
  "one_by_one n =
     concat (map (\<lambda>i. [Acquire i, Complete i None, Deliver i, Release i, Finish i]) [0..<n])
     @ [Close, Drain, Proceed]"



text \<open>
  A value that can stand as one segment of a resource path; a key that
  \<open>ParseFirewallRuleID\<close> accepts.
\<close>

definition segment_ok :: "string \<Rightarrow> bool" where
  "segment_ok v \<longleftrightarrow> v \<noteq> [] \<and> CHR ''/'' \<notin> set v"


text \<open>
  The part of \<open>one_by_one\<close> that is worker \<open>i\<close>'s, and the states between two
  workers of that schedule: the workers before \<open>k\<close> have ended with \<open>nil\<close>, the
  others have not started.
\<close>

definition cycle :: "nat \<Rightarrow> action list" where
  "cycle i = [Acquire i, Complete i None, Deliver i, Release i, Finish i]"

definition served :: "nat \<Rightarrow> system \<Rightarrow> bool" where
  "served k s \<longleftrightarrow>
     main s = Ranging \<and> closer s \<and> \<not> errs_closed s \<and>
     in_flight s = 0 \<and> held s = 0 \<and>
     list_all (\<lambda>jw. finished (snd jw)) (earlier s) \<and>
     (\<forall>i. i < k \<longrightarrow> at i s = Some (Finished None)) \<and>
     (\<forall>i. k \<le> i \<and> i < length (workers s) \<longrightarrow> at i s = Some Spawned)"

text \<open>The states in which the first \<open>k\<close> workers of \<open>s0\<close> hold a permit and no other does.\<close>

definition acquired :: "nat \<Rightarrow> system \<Rightarrow> system \<Rightarrow> bool" where
  "acquired k s0 s \<longleftrightarrow>
     main s = main s0 \<and> length (workers s) = length (workers s0) \<and>
     in_flight s = k \<and> held s = k \<and>
     (\<forall>i. k \<le> i \<and> i < length (workers s0) \<longrightarrow> at i s = Some Spawned)"


fun blocked :: "wstate \<Rightarrow> bool" where
  "blocked (Sending r) = True"
| "blocked (Finished r) = True"
| "blocked w = False"








section \<open>Example inputs\<close>

text \<open>
  A server, the desired rules \<open>A\<close> and \<open>B\<close> and the remote rules \<open>A\<close> and \<open>C\<close> of
  the spec's scenario, a listed rule without an \<open>Id\<close>, and a call's metadata, given
  what \<open>HasChange\<close> answers, the subscription of the client's account and the
  listing of the remote store.
\<close>

definition example_server :: FlexibleServerId where
  "example_server = NewFlexibleServerID ''sub-a'' ''rg'' ''srv''"

definition rule_A :: Rule where
  "rule_A = \<lparr>Rule.Name = ''A'', Rule.StartIPAddress = ''10.0.0.1'',
             Rule.EndIPAddress = ''10.0.0.254''\<rparr>"

definition rule_B :: Rule where
  "rule_B = \<lparr>Rule.Name = ''B'', Rule.StartIPAddress = ''10.1.0.1'',
             Rule.EndIPAddress = ''10.1.0.128''\<rparr>"

definition remote_rule :: "string \<Rightarrow> string \<Rightarrow> string \<Rightarrow> FirewallRule" where
  "remote_rule name startIP endIP =
     \<lparr>Id = Some (FirewallRuleId_ID (NewFirewallRuleID ''sub-a'' ''rg'' ''srv'' name)),
      Name = Some name,
      Properties = \<lparr>EndIPAddress = endIP, StartIPAddress = startIP\<rparr>\<rparr>"

definition remote_A :: FirewallRule where
  "remote_A = remote_rule ''A'' ''10.0.0.1'' ''10.0.0.254''"

definition remote_C :: FirewallRule where
  "remote_C = remote_rule ''C'' ''9.9.9.9'' ''9.9.9.9''"

definition remote_without_id :: FirewallRule where
  "remote_without_id =
     \<lparr>Id = None, Name = Some ''C'',
      Properties = \<lparr>EndIPAddress = ''9.9.9.9'', StartIPAddress = ''9.9.9.9''\<rparr>\<rparr>"

definition example_metadata ::
  "(string \<Rightarrow> bool) \<Rightarrow> string \<Rightarrow> FirewallRule list \<Rightarrow> ResourceMetaData" where
  "example_metadata changed subscriptionId current =
     \<lparr>Decode = Inr \<lparr>ServerID = FlexibleServerId_ID example_server, Rule = [rule_A, rule_B]\<rparr>,
      HasChange = changed,
      ResourceData_Id = FlexibleServerId_ID example_server,
      Client_Account_SubscriptionId = subscriptionId,
      ListByServerComplete = (\<lambda>sid. Inr current)\<rparr>"

text \<open>One rule more than \<open>maxConcurrency\<close>, named \<open>r100\<close>, \<open>r00\<close>, ..., \<open>r99\<close>.\<close>

definition many_rules :: "Rule list" where
  "many_rules =
     map (\<lambda>name. \<lparr>Rule.Name = name, Rule.StartIPAddress = ''10.0.0.1'',
                   Rule.EndIPAddress = ''10.0.0.1''\<rparr>)
       (''r100'' # map (\<lambda>(a, b). [CHR ''r'', a, b]) (List.product ''0123456789'' ''0123456789''))"

definition many_metadata :: ResourceMetaData where
  "many_metadata =
     \<lparr>Decode = Inr \<lparr>ServerID = FlexibleServerId_ID example_server, Rule = many_rules\<rparr>,
      HasChange = (\<lambda>k. True),
      ResourceData_Id = FlexibleServerId_ID example_server,
      Client_Account_SubscriptionId = ''sub-a'',
      ListByServerComplete = (\<lambda>sid. Inr [])\<rparr>"

text \<open>
  Two workers run; the remote call of the first fails and its result is the first
  that the range loop receives.
\<close>

definition first_fails :: "action list" where
  "first_fails =
     [Acquire 0, Acquire 1, Complete 0 (Some (RemoteError ''conflict'')), Complete 1 None,
      Deliver 0, Release 0, Finish 0]"


section \<open>Counting workers\<close>

lemma count_Nil [simp]: "count P [] = 0"
  by (simp add: count_def)

lemma count_Cons [simp]: "count P (jw # ws) = (if P (snd jw) then Suc (count P ws) else count P ws)"
  by (simp add: count_def)

lemma count_append [simp]: "count P (xs @ ys) = count P xs + count P ys"
  by (simp add: count_def)

lemma count_le_length: "count P ws \<le> length ws"
  by (simp add: count_def)

lemma count_update:
  "i < length ws \<Longrightarrow>
     count P (ws[i := (j, w)]) + (if P (snd (ws ! i)) then 1 else 0) =
     count P ws + (if P w then 1 else 0)"
proof (induction ws arbitrary: i)
  case Nil
  then show ?case by simp
next
  case (Cons a ws)
  show ?case
  proof (cases i)
    case 0
    then show ?thesis by simp
  next
    case (Suc k)
    with Cons.prems have "k < length ws" by simp
    from Cons.IH [OF this] Suc show ?thesis by simp
  qed
qed

lemma count_mono: "(\<And>w. P w \<Longrightarrow> Q w) \<Longrightarrow> count P ws \<le> count Q ws"
  by (induction ws) auto

lemma list_all_update:
  "list_all P ws \<Longrightarrow> P x \<Longrightarrow> list_all P (ws[i := x])"
  by (induction ws arbitrary: i) (auto split: nat.splits)

lemma set_worker_fields [simp]:
  "main (set_worker i w s) = main s"
  "events (set_worker i w s) = events s"
  "errs_closed (set_worker i w s) = errs_closed s"
  "closer (set_worker i w s) = closer s"
  "earlier (set_worker i w s) = earlier s"
  "pending (set_worker i w s) = pending s"
  "lock (set_worker i w s) = lock s"
  "on_success (set_worker i w s) = on_success s"
  "workers (set_worker i w s) = (workers s)[i := (fst (workers s ! i), w)]"
  by (simp_all add: set_worker_def)

lemma return_with_fields [simp]:
  "main (return_with r s) = Returned r"
  "events (return_with r s) = events s @ [locks_UnlockByName (lock s)]"
  "errs_closed (return_with r s) = errs_closed s"
  "closer (return_with r s) = closer s"
  "earlier (return_with r s) = earlier s"
  "pending (return_with r s) = pending s"
  "lock (return_with r s) = lock s"
  "on_success (return_with r s) = on_success s"
  "workers (return_with r s) = workers s"
  by (simp_all add: return_with_def)

lemma at_Some: "at i s = Some w \<longleftrightarrow> i < length (workers s) \<and> snd (workers s ! i) = w"
  by (auto simp: at_def)

lemma held_set_worker:
  "at i s = Some w0 \<Longrightarrow>
     held (set_worker i w s) + (if holds_permit w0 then 1 else 0) =
     held s + (if holds_permit w then 1 else 0)"
  using count_update [of i "workers s" holds_permit "fst (workers s ! i)" w]
  by (auto simp: held_def at_Some)

lemma held_return_with [simp]: "held (return_with r s) = held s"
  by (simp add: held_def)

lemma spawnCreateOrUpdate_Spawned:
  "list_all (\<lambda>jw. snd jw = Spawned) (fst (spawnCreateOrUpdate fw))"
  by (induction fw rule: spawnCreateOrUpdate.induct) (auto split: sum.splits prod.splits)

lemma count_Spawned: "list_all (\<lambda>jw. snd jw = Spawned) ws \<Longrightarrow> P Spawned = False \<Longrightarrow> count P ws = 0"
  by (induction ws) auto

lemma dispatchCreateOrUpdate_fields [simp]:
  "workers (dispatchCreateOrUpdate fw s) = fst (spawnCreateOrUpdate fw)"
  "earlier (dispatchCreateOrUpdate fw s) = earlier s @ workers s"
  "errs_closed (dispatchCreateOrUpdate fw s) = False"
  "closer (dispatchCreateOrUpdate fw s) = (\<not> snd (spawnCreateOrUpdate fw))"
  "main (dispatchCreateOrUpdate fw s) = (if snd (spawnCreateOrUpdate fw) then Panicked else Ranging)"
  "events (dispatchCreateOrUpdate fw s) =
     (if snd (spawnCreateOrUpdate fw) then events s @ [locks_UnlockByName (lock s)]
      else events s)"
  "pending (dispatchCreateOrUpdate fw s) = pending s"
  "lock (dispatchCreateOrUpdate fw s) = lock s"
  "on_success (dispatchCreateOrUpdate fw s) = on_success s"
  by (simp_all add: dispatchCreateOrUpdate_def split: prod.splits)

lemma held_dispatchCreateOrUpdate: "held (dispatchCreateOrUpdate fw s) = held s"
  using spawnCreateOrUpdate_Spawned [of fw]
  by (auto simp: dispatchCreateOrUpdate_def held_def count_Spawned split: prod.splits)

lemma held_set_worker_le:
  "at i s = Some w0 \<Longrightarrow> (holds_permit w \<Longrightarrow> holds_permit w0) \<Longrightarrow>
     held (set_worker i w s) \<le> held s"
  using held_set_worker [of i s w0 w] by (auto split: if_splits)

lemma list_all_at:
  "list_all (\<lambda>jw. P (snd jw)) (workers s) \<Longrightarrow> at i s = Some w \<Longrightarrow> P w"
  by (auto simp: at_Some list_all_length)

lemma coherent_set_worker:
  assumes "coherent s" and "at i s = Some w0" and "\<not> finished w0"
    and "held (set_worker i w s) \<le> maxConcurrency"
    and "main s = Ranging \<or> main s = Waiting \<Longrightarrow> result_ok w"
  shows "coherent (set_worker i w s)"
proof -
  have notclosed: "\<not> errs_closed s"
    using assms(1-3) list_all_at [of finished s i w0] by (auto simp: coherent_def)
  have notdone: "main s \<noteq> Returned None"
    using assms(1-3) list_all_at [of "\<lambda>w. w = Finished None" s i w0] by (auto simp: coherent_def)
  have notwait: "main s \<noteq> Waiting"
    using assms(1) notclosed by (auto simp: coherent_def)
  show ?thesis
    using assms(1,4,5) notclosed notdone notwait
    by (auto simp: coherent_def intro: list_all_update)
qed

lemma finished_Finished_None:
  "finished w \<Longrightarrow> result_ok w \<Longrightarrow> w = Finished None"
  by (cases w) auto

lemma list_all_Finished_None:
  "list_all (\<lambda>jw. finished (snd jw)) ws \<Longrightarrow> list_all (\<lambda>jw. result_ok (snd jw)) ws \<Longrightarrow>
     list_all (\<lambda>jw. snd jw = Finished None) ws"
  by (induction ws) (auto intro: finished_Finished_None)

lemma coherent_step:
  assumes "coherent s"
  shows "coherent (step a s)"
proof (cases a)
  case (Acquire i)
  show ?thesis
  proof (cases "main s \<noteq> Panicked \<and> at i s = Some Spawned \<and> held s < maxConcurrency")
    case True
    then have "held (set_worker i Holding s) \<le> maxConcurrency"
      using held_set_worker [of i s Spawned Holding] by simp
    with True assms have "coherent (set_worker i Holding s)"
      by (intro coherent_set_worker [where ?w0.0 = Spawned]) auto
    with True Acquire show ?thesis by simp
  next
    case False
    with Acquire assms show ?thesis by auto
  qed
next
  case (Complete i r)
  show ?thesis
  proof (cases "main s \<noteq> Panicked \<and> at i s = Some Holding")
    case True
    then have "held (set_worker i (Sending r) s) \<le> maxConcurrency"
      using held_set_worker_le [of i s Holding "Sending r"] assms by (simp add: coherent_def)
    with True assms have "coherent (set_worker i (Sending r) s)"
      by (intro coherent_set_worker [where ?w0.0 = Holding]) auto
    with True Complete show ?thesis by simp
  next
    case False
    with Complete assms show ?thesis by auto
  qed
next
  case (Deliver i)
  show ?thesis
  proof (cases "main s = Ranging \<and> (\<exists>r. at i s = Some (Sending r))")
    case True
    then obtain r where r: "at i s = Some (Sending r)" and m: "main s = Ranging" by auto
    show ?thesis
    proof (cases r)
      case None
      have "held (set_worker i (Sent None) s) \<le> maxConcurrency"
        using held_set_worker_le [of i s "Sending r" "Sent None"] r assms by (simp add: coherent_def)
      with r assms have "coherent (set_worker i (Sent None) s)"
        by (intro coherent_set_worker [where ?w0.0 = "Sending r"]) auto
      with r m None Deliver show ?thesis by simp
    next
      case (Some e)
      have h: "held (set_worker i (Sent (Some e)) s) \<le> maxConcurrency"
        using held_set_worker_le [of i s "Sending r" "Sent (Some e)"] r assms by (simp add: coherent_def)
      have "\<not> errs_closed s"
        using assms r list_all_at [of finished s i "Sending r"] by (auto simp: coherent_def)
      with assms h have "coherent (return_with (Some e) (set_worker i (Sent (Some e)) s))"
        by (auto simp: coherent_def)
      with r m Some Deliver show ?thesis by simp
    qed
  next
    case False
    with Deliver assms show ?thesis by (auto split: option.splits wstate.splits)
  qed
next
  case (Release i)
  show ?thesis
  proof (cases "main s \<noteq> Panicked \<and> (\<exists>r. at i s = Some (Sent r))")
    case True
    then obtain r where r: "at i s = Some (Sent r)" by auto
    have "held (set_worker i (Released r) s) \<le> maxConcurrency"
      using held_set_worker_le [of i s "Sent r" "Released r"] r assms by (simp add: coherent_def)
    moreover have "result_ok (Released r)" if "main s = Ranging \<or> main s = Waiting"
      using that assms r list_all_at [of result_ok s i "Sent r"] by (auto simp: coherent_def)
    ultimately have "coherent (set_worker i (Released r) s)"
      using r assms by (intro coherent_set_worker [where ?w0.0 = "Sent r"]) auto
    with True r Release show ?thesis by simp
  next
    case False
    with Release assms show ?thesis by (auto split: option.splits wstate.splits)
  qed
next
  case (Finish i)
  show ?thesis
  proof (cases "main s \<noteq> Panicked \<and> (\<exists>r. at i s = Some (Released r))")
    case True
    then obtain r where r: "at i s = Some (Released r)" by auto
    have "held (set_worker i (Finished r) s) \<le> maxConcurrency"
      using held_set_worker_le [of i s "Released r" "Finished r"] r assms by (simp add: coherent_def)
    moreover have "result_ok (Finished r)" if "main s = Ranging \<or> main s = Waiting"
      using that assms r list_all_at [of result_ok s i "Released r"] by (auto simp: coherent_def)
    ultimately have "coherent (set_worker i (Finished r) s)"
      using r assms by (intro coherent_set_worker [where ?w0.0 = "Released r"]) auto
    with True r Finish show ?thesis by simp
  next
    case False
    with Finish assms show ?thesis by (auto split: option.splits wstate.splits)
  qed
next
  case Close
  with assms show ?thesis by (auto simp: coherent_def held_def wg_zero_def)
next
  case Drain
  with assms show ?thesis by (auto simp: coherent_def held_def)
next
  case Proceed
  show ?thesis
  proof (cases "main s = Waiting \<and> wg_zero s")
    case True
    then have fin: "list_all (\<lambda>jw. snd jw = Finished None) (workers s)"
      using assms by (auto simp: coherent_def wg_zero_def intro: list_all_Finished_None)
    show ?thesis
    proof (cases "pending s")
      case Nil
      with True Proceed fin assms show ?thesis by (auto simp: coherent_def held_def)
    next
      case (Cons fw rest)
      have "list_all (\<lambda>jw. result_ok (snd jw)) (fst (spawnCreateOrUpdate fw))"
        using spawnCreateOrUpdate_Spawned [of fw] by (rule list.pred_mono_strong) simp
      moreover have "held (dispatchCreateOrUpdate fw (s\<lparr>pending := rest\<rparr>)) \<le> maxConcurrency"
        using assms by (simp add: held_dispatchCreateOrUpdate) (simp add: held_def coherent_def)
      ultimately have "coherent (dispatchCreateOrUpdate fw (s\<lparr>pending := rest\<rparr>))"
        using assms fin by (simp add: coherent_def)
      with True Proceed Cons show ?thesis by simp
    qed
  next
    case False
    with Proceed assms show ?thesis by auto
  qed
qed

lemma coherent_exec: "coherent s \<Longrightarrow> coherent (exec sched s)"
  unfolding exec_def by (induction sched arbitrary: s) (auto intro: coherent_step)

section \<open>The first state of a call\<close>

lemma returned_fields [simp]:
  "main (returned r) = Returned r" "workers (returned r) = []" "earlier (returned r) = []"
  "pending (returned r) = []" "closer (returned r) = False" "errs_closed (returned r) = False"
  "events (returned r) = []"
  by (simp_all add: returned_def)

lemma locked_fields [simp]:
  "workers (listed sid (locked sid)) = []" "earlier (listed sid (locked sid)) = []"
  "pending (listed sid (locked sid)) = []" "closer (listed sid (locked sid)) = False"
  "errs_closed (listed sid (locked sid)) = False"
  "lock (listed sid (locked sid)) = FlexibleServerName sid"
  "events (listed sid (locked sid)) =
     [locks_ByName (FlexibleServerName sid), ListByServerComplete_call sid]"
  "workers (locked sid) = []" "earlier (locked sid) = []" "pending (locked sid) = []"
  "closer (locked sid) = False" "errs_closed (locked sid) = False"
  "lock (locked sid) = FlexibleServerName sid"
  "events (locked sid) = [locks_ByName (FlexibleServerName sid)]"
  by (simp_all add: listed_def locked_def)

lemma dispatchDelete_fields [simp]:
  "workers (dispatchDelete rules s) = map (\<lambda>f. (batchDelete f, Spawned)) rules"
  "earlier (dispatchDelete rules s) = earlier s"
  "errs_closed (dispatchDelete rules s) = False"
  "closer (dispatchDelete rules s) = True"
  "main (dispatchDelete rules s) = Ranging"
  "events (dispatchDelete rules s) = events s"
  "pending (dispatchDelete rules s) = pending s"
  "lock (dispatchDelete rules s) = lock s"
  "on_success (dispatchDelete rules s) = on_success s"
  by (simp_all add: dispatchDelete_def)

lemma spawnDelete_Spawned: "list_all (\<lambda>jw. snd jw = Spawned) (fst (spawnDelete items))"
  by (induction items rule: spawnDelete.induct) (auto split: sum.splits prod.splits)

lemma coherent_fresh:
  assumes "earlier s = []" and "list_all (\<lambda>jw. snd jw = Spawned) (workers s)"
    and "\<not> errs_closed s" and "main s \<noteq> Waiting" and "main s \<noteq> Returned None \<or> workers s = []"
  shows "coherent s"
proof -
  have "held s = 0"
    using assms(1,2) by (simp add: held_def count_Spawned)
  moreover have "list_all (\<lambda>jw. result_ok (snd jw)) (workers s)"
    using assms(2) by (rule list.pred_mono_strong) simp
  ultimately show ?thesis
    using assms by (auto simp: coherent_def)
qed

lemma coherent_Create: "coherent (Create metadata)"
  unfolding Create_def
  by (auto split: sum.splits if_splits intro!: coherent_fresh simp: spawnCreateOrUpdate_Spawned)

lemma coherent_Update: "coherent (Update metadata)"
  unfolding Update_def
  by (auto split: sum.splits if_splits intro!: coherent_fresh simp: list_all_iff)

lemma coherent_Delete: "coherent (Delete metadata)"
  unfolding Delete_def
  using spawnDelete_Spawned
  by (auto split: sum.splits prod.splits option.splits intro!: coherent_fresh simp: listed_def locked_def)
     (metis fst_conv)+

section \<open>The phases of Update\<close>

lemma map_fst_update [simp]: "map fst (ws[i := (fst (ws ! i), w)]) = map fst ws"
  by (induction ws arbitrary: i) (auto split: nat.splits)

lemma list_all_fst_update [simp]:
  "list_all (\<lambda>jw. P (fst jw)) (ws[i := (fst (ws ! i), w)]) = list_all (\<lambda>jw. P (fst jw)) ws"
proof -
  have "list_all (\<lambda>jw. P (fst jw)) xs = list_all P (map fst xs)" for xs :: "('a \<times> 'b) list"
    by (simp add: list_all_iff)
  then show ?thesis by simp
qed

lemma spawnCreateOrUpdate_upsert:
  "list_all (\<lambda>jw. upsert (fst jw)) (fst (spawnCreateOrUpdate fw))"
  by (induction fw rule: spawnCreateOrUpdate.induct) (auto split: sum.splits prod.splits)

lemma phase_step:
  assumes "length (pending s0) \<le> 1"
    and "in_delete_phase s0 s \<or> in_upsert_phase s0 s"
  shows "in_delete_phase s0 (step a s) \<or> in_upsert_phase s0 (step a s)"
proof (cases a)
  case Proceed
  show ?thesis
  proof (cases "pending s")
    case Nil
    with Proceed assms(2) show ?thesis
      by (auto simp: in_delete_phase_def in_upsert_phase_def)
  next
    case (Cons fw rest)
    with assms(2) have d: "in_delete_phase s0 s"
      by (auto simp: in_upsert_phase_def)
    with Cons have "pending s0 = fw # rest"
      by (simp add: in_delete_phase_def)
    with assms(1) have rest: "rest = []" by simp
    show ?thesis
    proof (cases "main s = Waiting \<and> wg_zero s")
      case True
      with Proceed Cons rest
      have "step a s = dispatchCreateOrUpdate fw (s\<lparr>pending := []\<rparr>)" by simp
      with d have "in_upsert_phase s0 (step a s)"
        by (simp add: in_delete_phase_def in_upsert_phase_def spawnCreateOrUpdate_upsert)
      then show ?thesis ..
    next
      case False
      with Proceed have "step a s = s" by auto
      with d show ?thesis by simp
    qed
  qed
qed (use assms(2) in \<open>auto simp: in_delete_phase_def in_upsert_phase_def
       split: option.splits wstate.splits intro: list_all_update\<close>)

lemma phase_exec:
  "length (pending s0) \<le> 1 \<Longrightarrow> in_delete_phase s0 s \<or> in_upsert_phase s0 s \<Longrightarrow>
     in_delete_phase s0 (exec sched s) \<or> in_upsert_phase s0 (exec sched s)"
  unfolding exec_def
proof (induction sched arbitrary: s)
  case Nil
  then show ?case by simp
next
  case (Cons a sched)
  from phase_step [OF Cons.prems] Cons.IH [OF Cons.prems(1)] show ?case by simp
qed

lemma Update_start:
  "length (pending (Update metadata)) \<le> 1"
  "earlier (Update metadata) = []"
  "list_all (\<lambda>jw. \<not> upsert (fst jw)) (workers (Update metadata))"
  unfolding Update_def by (auto split: sum.splits simp: list_all_iff)

lemma Update_phases:
  "in_delete_phase (Update metadata) (exec sched (Update metadata)) \<or>
   in_upsert_phase (Update metadata) (exec sched (Update metadata))"
proof (rule phase_exec)
  show "length (pending (Update metadata)) \<le> 1" by (rule Update_start)
  show "in_delete_phase (Update metadata) (Update metadata) \<or>
        in_upsert_phase (Update metadata) (Update metadata)"
    by (simp add: in_delete_phase_def Update_start)
qed

lemma list_all_map_fst:
  "map fst xs = map fst ys \<Longrightarrow> list_all (\<lambda>jw. P (fst jw)) ys \<Longrightarrow> list_all (\<lambda>jw. P (fst jw)) xs"
proof -
  assume a: "map fst xs = map fst ys" and b: "list_all (\<lambda>jw. P (fst jw)) ys"
  have "list_all P (map fst ys)" using b by (simp add: list_all_iff)
  with a have "list_all P (map fst xs)" by simp
  then show ?thesis by (simp add: list_all_iff)
qed

lemma finished_jobs:
  "list_all (\<lambda>jw. snd jw = Finished None) xs \<Longrightarrow> map fst xs = map fst ys \<Longrightarrow>
     xs = map (\<lambda>jw. (fst jw, Finished None)) ys"
proof (induction xs arbitrary: ys)
  case Nil
  then show ?case by simp
next
  case (Cons x xs)
  then obtain y ys' where "ys = y # ys'" by (cases ys) auto
  with Cons show ?case by (cases x) auto
qed

text \<open>
  Claim C2.  In every state of every run of \<open>Update\<close>: when a worker of the upsert
  phase exists, the workers of the delete phase are exactly the jobs that \<open>Update\<close>
  dispatched first, and each has ended after the range loop received \<open>nil\<close> from
  it; and when the remote call of a delete worker has failed, no worker of the upsert
  phase exists.  A failure stays recorded in its worker, so none is dispatched later
  in that run either.
\<close>

theorem Update_upsert_after_delete:
  assumes "s = exec sched (Update metadata)"
  shows "(list_ex (\<lambda>jw. upsert (fst jw)) (earlier s @ workers s) \<longrightarrow>
            earlier s = map (\<lambda>jw. (fst jw, Finished None)) (workers (Update metadata)) \<and>
            list_all (\<lambda>jw. upsert (fst jw)) (workers s)) \<and>
         (list_ex (\<lambda>jw. \<not> upsert (fst jw) \<and> failed (snd jw)) (earlier s @ workers s) \<longrightarrow>
            \<not> list_ex (\<lambda>jw. upsert (fst jw)) (earlier s @ workers s))"
proof -
  have coh: "coherent s"
    using assms coherent_Update coherent_exec by simp
  have ph: "in_delete_phase (Update metadata) s \<or> in_upsert_phase (Update metadata) s"
    using assms Update_phases by simp
  have no_upsert: "\<not> list_ex (\<lambda>jw. upsert (fst jw)) (earlier s @ workers s)"
    if "in_delete_phase (Update metadata) s"
  proof -
    from that have "map fst (workers s) = map fst (workers (Update metadata))" and "earlier s = []"
      by (simp_all add: in_delete_phase_def)
    then have "list_all (\<lambda>jw. \<not> upsert (fst jw)) (earlier s @ workers s)"
      using list_all_map_fst [of "workers s" "workers (Update metadata)" "\<lambda>j. \<not> upsert j"]
        Update_start(3) [of metadata] by simp
    then show ?thesis by (auto simp: list_all_iff list_ex_iff)
  qed
  have first: "earlier s = map (\<lambda>jw. (fst jw, Finished None)) (workers (Update metadata)) \<and>
      list_all (\<lambda>jw. upsert (fst jw)) (workers s)"
    if "list_ex (\<lambda>jw. upsert (fst jw)) (earlier s @ workers s)"
  proof -
    from that no_upsert ph have up: "in_upsert_phase (Update metadata) s" by blast
    then have "map fst (earlier s) = map fst (workers (Update metadata))"
      by (simp add: in_upsert_phase_def)
    moreover from coh have "list_all (\<lambda>jw. snd jw = Finished None) (earlier s)"
      by (simp add: coherent_def)
    ultimately show ?thesis
      using up finished_jobs by (auto simp: in_upsert_phase_def)
  qed
  have second: "\<not> list_ex (\<lambda>jw. upsert (fst jw)) (earlier s @ workers s)"
    if f: "list_ex (\<lambda>jw. \<not> upsert (fst jw) \<and> failed (snd jw)) (earlier s @ workers s)"
  proof
    assume "list_ex (\<lambda>jw. upsert (fst jw)) (earlier s @ workers s)"
    from first [OF this] have e: "list_all (\<lambda>jw. snd jw = Finished None) (earlier s)"
      and w: "list_all (\<lambda>jw. upsert (fst jw)) (workers s)"
      by (simp_all add: list_all_iff)
    from f e w show False by (auto simp: list_all_iff list_ex_iff)
  qed
  from first second show ?thesis by blast
qed

theorem Update_upsert_after_delete_witness:
  "list_ex (\<lambda>jw. upsert (fst jw))
     (earlier (exec (one_by_one 1) (Update (example_metadata (\<lambda>k. True) ''sub-a'' [remote_A, remote_C])))
      @ workers (exec (one_by_one 1) (Update (example_metadata (\<lambda>k. True) ''sub-a'' [remote_A, remote_C])))) \<and>
   earlier (exec (one_by_one 1) (Update (example_metadata (\<lambda>k. True) ''sub-a'' [remote_A, remote_C]))) =
     [(batchDelete (NewFirewallRuleID ''sub-a'' ''rg'' ''srv'' ''C''), Finished None)] \<and>
   list_ex (\<lambda>jw. \<not> upsert (fst jw) \<and> failed (snd jw))
     (earlier (exec [Acquire 0, Complete 0 (Some (RemoteError ''conflict'')), Deliver 0]
                (Update (example_metadata (\<lambda>k. True) ''sub-a'' [remote_A, remote_C])))
      @ workers (exec [Acquire 0, Complete 0 (Some (RemoteError ''conflict'')), Deliver 0]
                (Update (example_metadata (\<lambda>k. True) ''sub-a'' [remote_A, remote_C])))) \<and>
   \<not> list_ex (\<lambda>jw. upsert (fst jw))
     (earlier (exec [Acquire 0, Complete 0 (Some (RemoteError ''conflict'')), Deliver 0]
                (Update (example_metadata (\<lambda>k. True) ''sub-a'' [remote_A, remote_C])))
      @ workers (exec [Acquire 0, Complete 0 (Some (RemoteError ''conflict'')), Deliver 0]
                (Update (example_metadata (\<lambda>k. True) ''sub-a'' [remote_A, remote_C]))))"
proof -
  let ?u = "Update (example_metadata (\<lambda>k. True) ''sub-a'' [remote_A, remote_C])"
  let ?bad = "[Acquire 0, Complete 0 (Some (RemoteError ''conflict'')), Deliver 0]"
  have a: "list_ex (\<lambda>jw. upsert (fst jw))
     (earlier (exec (one_by_one 1) ?u) @ workers (exec (one_by_one 1) ?u))"
    by code_simp
  have w: "workers ?u = [(batchDelete (NewFirewallRuleID ''sub-a'' ''rg'' ''srv'' ''C''), Spawned)]"
    by code_simp
  have b: "list_ex (\<lambda>jw. \<not> upsert (fst jw) \<and> failed (snd jw))
     (earlier (exec ?bad ?u) @ workers (exec ?bad ?u))"
    by code_simp
  from a w b
    Update_upsert_after_delete [OF refl, of "one_by_one 1" "example_metadata (\<lambda>k. True) ''sub-a'' [remote_A, remote_C]"]
    Update_upsert_after_delete [OF refl, of ?bad "example_metadata (\<lambda>k. True) ''sub-a'' [remote_A, remote_C]"]
  show ?thesis by simp
qed

lemma step_returned:
  "main s = Returned r \<Longrightarrow> workers s = [] \<Longrightarrow> \<not> closer s \<Longrightarrow> step a s = s"
  by (cases a) (auto simp: at_def)

lemma exec_returned:
  "main s = Returned r \<Longrightarrow> workers s = [] \<Longrightarrow> \<not> closer s \<Longrightarrow> exec sched s = s"
  unfolding exec_def by (induction sched) (auto simp: step_returned)

text \<open>
  Claim C6.  When \<open>Create\<close> decodes its model, parses the server identifier and the
  remote store lists at least one rule, then in every state of every run the call has
  returned the already-exists error, no worker was ever started (no rule is created,
  updated or deleted), and all it did was take the lock, list, and give the lock back.
\<close>

theorem Create_existing:
  assumes "Decode metadata = Inr model"
    and "ParseFlexibleServerID (ServerID model) = Inr sid"
    and "ListByServerComplete metadata sid = Inr items"
    and "items \<noteq> []"
    and "s = exec sched (Create metadata)"
  shows "main s = Returned (Some (ImportAsExistsError ResourceType (FlexibleServerId_ID sid))) \<and>
         workers s = [] \<and> earlier s = [] \<and>
         events s = [locks_ByName (FlexibleServerName sid), ListByServerComplete_call sid,
                     locks_UnlockByName (FlexibleServerName sid)]"
proof -
  have c: "Create metadata =
      return_with (Some (ImportAsExistsError ResourceType (FlexibleServerId_ID sid)))
        (listed sid (locked sid))"
    using assms(1-4) by (simp add: Create_def)
  have "exec sched (Create metadata) = Create metadata"
    unfolding c by (rule exec_returned) simp_all
  with assms(5) c show ?thesis by simp
qed

theorem Create_existing_witness:
  "main (exec [Acquire 0, Proceed] (Create (example_metadata (\<lambda>k. True) ''sub-a'' [remote_A]))) =
     Returned (Some (ImportAsExistsError ResourceType (FlexibleServerId_ID example_server))) \<and>
   workers (exec [Acquire 0, Proceed] (Create (example_metadata (\<lambda>k. True) ''sub-a'' [remote_A]))) = [] \<and>
   events (exec [Acquire 0, Proceed] (Create (example_metadata (\<lambda>k. True) ''sub-a'' [remote_A]))) =
     [locks_ByName ''srv'', ListByServerComplete_call example_server, locks_UnlockByName ''srv'']"
proof -
  let ?md = "example_metadata (\<lambda>k. True) ''sub-a'' [remote_A]"
  have d: "Decode ?md = Inr \<lparr>ServerID = FlexibleServerId_ID example_server, Rule = [rule_A, rule_B]\<rparr>"
    by (simp add: example_metadata_def)
  have p: "ParseFlexibleServerID
             (ServerID \<lparr>ServerID = FlexibleServerId_ID example_server, Rule = [rule_A, rule_B]\<rparr>) =
           Inr example_server"
    by code_simp
  have l: "ListByServerComplete ?md example_server = Inr [remote_A]"
    by (simp add: example_metadata_def)
  have n: "FlexibleServerName example_server = ''srv''"
    by (simp add: example_server_def NewFlexibleServerID_def)
  from Create_existing [OF d p l _ refl, of "[Acquire 0, Proceed]"] n
  show ?thesis by simp
qed

lemma rulesToDelete_append:
  "rulesToDelete fw (xs @ ys) = rulesToDelete fw xs @ rulesToDelete fw ys"
  by (induction xs) (auto split: sum.splits)

text \<open>
  Claim C10.  A listed rule whose \<open>Id\<close> does not parse adds nothing to
  \<open>rulesToDelete\<close>, and every run of \<open>Update\<close> is the run on the listing without
  that rule: no deletion is dispatched for it and no error is returned for it.
\<close>

theorem Update_skips_unparsed:
  assumes "ParseFirewallRuleIDInsensitively (pointer_From (Id v)) = Inl err"
  shows "rulesToDelete fw (xs @ v # ys) = rulesToDelete fw (xs @ ys) \<and>
         exec sched (Update (metadata\<lparr>ListByServerComplete := \<lambda>sid. Inr (xs @ v # ys)\<rparr>)) =
         exec sched (Update (metadata\<lparr>ListByServerComplete := \<lambda>sid. Inr (xs @ ys)\<rparr>))"
proof -
  have r: "rulesToDelete fw' (xs @ v # ys) = rulesToDelete fw' (xs @ ys)" for fw'
    using assms by (simp add: rulesToDelete_append)
  have "Update (metadata\<lparr>ListByServerComplete := \<lambda>sid. Inr (xs @ v # ys)\<rparr>) =
        Update (metadata\<lparr>ListByServerComplete := \<lambda>sid. Inr (xs @ ys)\<rparr>)"
    by (simp add: Update_def r split: sum.splits)
  with r show ?thesis by simp
qed

theorem Update_skips_unparsed_witness:
  "rulesToDelete (firewallRules ''sub-a'' example_server [rule_A, rule_B])
      ([remote_A] @ remote_without_id # [remote_C]) =
   [NewFirewallRuleID ''sub-a'' ''rg'' ''srv'' ''C''] \<and>
   exec (one_by_one 1)
     (Update ((example_metadata (\<lambda>k. True) ''sub-a'' [])
        \<lparr>ListByServerComplete := \<lambda>sid. Inr ([remote_A] @ remote_without_id # [remote_C])\<rparr>)) =
   exec (one_by_one 1)
     (Update ((example_metadata (\<lambda>k. True) ''sub-a'' [])
        \<lparr>ListByServerComplete := \<lambda>sid. Inr ([remote_A] @ [remote_C])\<rparr>))"
proof -
  have p: "ParseFirewallRuleIDInsensitively (pointer_From (Id remote_without_id)) = Inl (ParseError [])"
    by code_simp
  have r: "rulesToDelete (firewallRules ''sub-a'' example_server [rule_A, rule_B])
      ([remote_A] @ [remote_C]) = [NewFirewallRuleID ''sub-a'' ''rg'' ''srv'' ''C'']"
    by code_simp
  from Update_skips_unparsed [OF p, of "firewallRules ''sub-a'' example_server [rule_A, rule_B]"
      "[remote_A]" "[remote_C]" "one_by_one 1" "example_metadata (\<lambda>k. True) ''sub-a'' []"] r
  show ?thesis by simp
qed

section \<open>Bounded concurrency\<close>

lemma at_set_worker:
  "at i (set_worker j w s) = (if i = j \<and> j < length (workers s) then Some w else at i s)"
  by (auto simp: at_def)

lemma length_set_worker [simp]: "length (workers (set_worker i w s)) = length (workers s)"
  by simp

lemma in_flight_set_worker:
  "at i s = Some w0 \<Longrightarrow>
     in_flight (set_worker i w s) + (if w0 = Holding then 1 else 0) =
     in_flight s + (if w = Holding then 1 else 0)"
  using count_update [of i "workers s" "\<lambda>w. w = Holding" "fst (workers s ! i)" w]
  by (auto simp: in_flight_def at_Some)

lemma in_flight_le_held: "in_flight s \<le> held s"
  unfolding in_flight_def held_def by (rule count_mono) auto

lemma in_flight_le_workers:
  assumes "list_all (\<lambda>jw. snd jw = Finished None) (earlier s)"
  shows "in_flight s \<le> length (workers s)"
proof -
  have "count (\<lambda>w. w = Holding) (earlier s) = 0"
    using assms by (induction "earlier s" arbitrary: s) (auto simp: count_def list_all_iff)
  then show ?thesis
    using count_le_length [of "\<lambda>w. w = Holding" "workers s"] by (simp add: in_flight_def)
qed

lemma in_flight_bound:
  "coherent s \<Longrightarrow> in_flight s \<le> min (length (workers s)) maxConcurrency"
  using in_flight_le_held [of s] in_flight_le_workers [of s] by (simp add: coherent_def)

lemma exec_append: "exec (xs @ ys) s = exec ys (exec xs s)"
  by (simp add: exec_def)

lemma exec_Nil [simp]: "exec [] s = s"
  by (simp add: exec_def)

lemma exec_Cons [simp]: "exec (a # sched) s = exec sched (step a s)"
  by (simp add: exec_def)

lemma acquire_all:
  assumes "main s0 \<noteq> Panicked" and "in_flight s0 = 0" and "held s0 = 0"
    and "list_all (\<lambda>jw. snd jw = Spawned) (workers s0)"
    and "k \<le> length (workers s0)" and "k \<le> maxConcurrency"
  shows "acquired k s0 (exec (map Acquire [0..<k]) s0)"
  using assms(5,6)
proof (induction k)
  case 0
  show ?case
    using assms(2-4) by (auto simp: acquired_def at_def list_all_length)
next
  case (Suc k)
  let ?s = "exec (map Acquire [0..<k]) s0"
  from Suc have a: "acquired k s0 ?s" by simp
  then have sp: "at k ?s = Some Spawned"
    using Suc.prems by (simp add: acquired_def)
  from a have h: "held ?s < maxConcurrency" and m: "main ?s \<noteq> Panicked"
    using Suc.prems assms(1) by (simp_all add: acquired_def)
  have st: "exec (map Acquire [0..<Suc k]) s0 = set_worker k Holding ?s"
    using sp h m by (simp add: exec_append)
  have "in_flight (set_worker k Holding ?s) = Suc k"
    using in_flight_set_worker [OF sp, of Holding] a by (simp add: acquired_def)
  moreover have "held (set_worker k Holding ?s) = Suc k"
    using held_set_worker [OF sp, of Holding] a by (simp add: acquired_def)
  ultimately show ?case
    unfolding st using a by (auto simp: acquired_def at_set_worker)
qed

lemma peak_ge: "in_flight s \<le> peak sched s"
  by (cases sched) simp_all

lemma peak_append: "peak (xs @ ys) s = max (peak xs s) (peak ys (exec xs s))"
proof (induction xs arbitrary: s)
  case Nil
  show ?case using peak_ge [of s ys] by (simp add: max_def)
next
  case (Cons a xs)
  then show ?case by (simp add: max.assoc)
qed

lemma one_by_one_eq: "one_by_one n = concat (map cycle [0..<n]) @ [Close, Drain, Proceed]"
  by (simp add: one_by_one_def cycle_def [abs_def])

lemma set_worker_twice: "set_worker k w (set_worker k w' s) = set_worker k w s"
proof (cases "k < length (workers s)")
  case True
  then show ?thesis by (simp add: set_worker_def)
next
  case False
  then have "length (workers s) \<le> k" by simp
  then have "(workers s)[k := x] = workers s" for x by (rule list_update_beyond)
  then show ?thesis by (simp add: set_worker_def)
qed

lemma serve_one:
  assumes "served k s" and "k < length (workers s)" and "0 < maxConcurrency"
  shows "served (Suc k) (exec (cycle k) s) \<and> peak (cycle k) s = 1 \<and>
         length (workers (exec (cycle k) s)) = length (workers s) \<and>
         pending (exec (cycle k) s) = pending s"
proof -
  let ?s1 = "set_worker k Holding s"
  let ?s2 = "set_worker k (Sending None) s"
  let ?s3 = "set_worker k (Sent None) s"
  let ?s4 = "set_worker k (Released None) s"
  let ?s5 = "set_worker k (Finished None) s"
  from assms have a0: "at k s = Some Spawned" and m: "main s = Ranging"
    and f0: "in_flight s = 0" and h0: "held s = 0"
    by (simp_all add: served_def)
  have a: "at k (set_worker k w s) = Some w" for w
    using assms(2) by (simp add: at_set_worker)
  have e1: "step (Acquire k) s = ?s1" using a0 m h0 assms(3) by simp
  have e2: "step (Complete k None) ?s1 = ?s2" using a [of Holding] m by (simp add: set_worker_twice)
  have e3: "step (Deliver k) ?s2 = ?s3" using a [of "Sending None"] m by (simp add: set_worker_twice)
  have e4: "step (Release k) ?s3 = ?s4" using a [of "Sent None"] m by (simp add: set_worker_twice)
  have e5: "step (Finish k) ?s4 = ?s5" using a [of "Released None"] m by (simp add: set_worker_twice)
  have f: "in_flight (set_worker k w s) = (if w = Holding then 1 else 0)" for w
    using in_flight_set_worker [OF a0, of w] f0 by simp
  have h: "held (set_worker k w s) = (if holds_permit w then 1 else 0)" for w
    using held_set_worker [OF a0, of w] h0 by simp
  have ex: "exec (cycle k) s = ?s5"
    unfolding cycle_def by (simp only: exec_Cons exec_Nil e1 e2 e3 e4 e5)
  have pk: "peak (cycle k) s = 1"
    unfolding cycle_def by (simp only: peak.simps e1 e2 e3 e4 e5 f0 f) simp
  have "served (Suc k) ?s5"
    unfolding served_def
  proof (intro conjI allI impI)
    fix i assume "i < Suc k"
    with assms(1,2) show "at i ?s5 = Some (Finished None)"
      by (cases "i = k") (simp_all add: at_set_worker served_def)
  next
    fix i assume "Suc k \<le> i \<and> i < length (workers ?s5)"
    with assms(1) show "at i ?s5 = Some Spawned"
      by (simp add: at_set_worker served_def)
  qed (use assms(1) f h in \<open>simp_all add: served_def\<close>)
  with ex pk show ?thesis by simp
qed

lemma serve_all:
  assumes "served 0 s" and "0 < maxConcurrency" and "k \<le> length (workers s)"
  shows "served k (exec (concat (map cycle [0..<k])) s) \<and>
         peak (concat (map cycle [0..<k])) s = (if k = 0 then 0 else 1) \<and>
         length (workers (exec (concat (map cycle [0..<k])) s)) = length (workers s) \<and>
         pending (exec (concat (map cycle [0..<k])) s) = pending s"
  using assms(3)
proof (induction k)
  case 0
  with assms(1) show ?case by (simp add: served_def)
next
  case (Suc k)
  let ?s = "exec (concat (map cycle [0..<k])) s"
  from Suc have ih: "served k ?s" "peak (concat (map cycle [0..<k])) s = (if k = 0 then 0 else 1)"
    "length (workers ?s) = length (workers s)" "pending ?s = pending s"
    by simp_all
  from Suc.prems ih(3) have "k < length (workers ?s)" by simp
  from serve_one [OF ih(1) this assms(2)] ih(2,3,4)
  show ?case by (simp add: exec_append peak_append)
qed

lemma in_flight_dispatchCreateOrUpdate: "in_flight (dispatchCreateOrUpdate fw s) = in_flight s"
  using spawnCreateOrUpdate_Spawned [of fw]
  by (simp add: in_flight_def count_Spawned)

lemma serve_rest:
  assumes "served (length (workers s)) s"
  shows "peak [Close, Drain, Proceed] s = 0 \<and>
         (pending s = [] \<longrightarrow> main (exec [Close, Drain, Proceed] s) = Returned None)"
proof -
  have "list_all (\<lambda>jw. finished (snd jw)) (workers s)"
    using assms by (auto simp: served_def list_all_length at_def)
  with assms have z: "wg_zero s" by (simp add: served_def wg_zero_def)
  from assms have m: "main s = Ranging" "closer s" "\<not> errs_closed s" "in_flight s = 0"
    by (simp_all add: served_def)
  have 1: "step Close s = s\<lparr>errs_closed := True\<rparr>" using m z by simp
  have 2: "step Drain (s\<lparr>errs_closed := True\<rparr>) = s\<lparr>errs_closed := True, main := Waiting\<rparr>"
    using m by simp
  have z': "wg_zero (s\<lparr>errs_closed := True, main := Waiting\<rparr>)"
    using z by (simp add: wg_zero_def)
  have 3: "in_flight (step Proceed (s\<lparr>errs_closed := True, main := Waiting\<rparr>)) = 0"
    using z' m(4)
    by (auto simp: in_flight_dispatchCreateOrUpdate split: list.splits) (simp_all add: in_flight_def)
  have "in_flight (s\<lparr>errs_closed := True\<rparr>) = 0" "in_flight (s\<lparr>errs_closed := True, main := Waiting\<rparr>) = 0"
    using m(4) by (simp_all add: in_flight_def)
  with 3 m(4) have "peak [Close, Drain, Proceed] s = 0"
    by (simp only: peak.simps 1 2 max_0L)
  moreover have "main (exec [Close, Drain, Proceed] s) = Returned None" if "pending s = []"
    using that z' by (simp only: exec_Cons exec_Nil 1 2) simp
  ultimately show ?thesis by blast
qed

lemma count_Finished:
  "list_all (\<lambda>jw. snd jw = Finished None) ws \<Longrightarrow> \<not> P (Finished None) \<Longrightarrow> count P ws = 0"
  by (induction ws) auto

lemma one_by_one_peak:
  assumes "main s = Ranging" and "closer s" and "\<not> errs_closed s"
    and "list_all (\<lambda>jw. snd jw = Spawned) (workers s)"
    and "list_all (\<lambda>jw. snd jw = Finished None) (earlier s)"
    and "workers s \<noteq> []"
  shows "peak (one_by_one (length (workers s))) s = 1 \<and>
         (pending s = [] \<longrightarrow> main (exec (one_by_one (length (workers s))) s) = Returned None)"
proof -
  define sched where "sched = concat (map cycle [0..<length (workers s)])"
  have cap: "0 < maxConcurrency" by (simp add: maxConcurrency_def)
  have f: "in_flight s = 0"
    using assms(4,5) by (simp add: in_flight_def count_Spawned count_Finished)
  have h: "held s = 0"
    using assms(4,5) by (simp add: held_def count_Spawned count_Finished)
  have e: "list_all (\<lambda>jw. finished (snd jw)) (earlier s)"
    using assms(5) by (rule list.pred_mono_strong) simp
  have sp: "at i s = Some Spawned" if "i < length (workers s)" for i
    using assms(4) that by (simp add: at_def list_all_length)
  have "served 0 s"
    unfolding served_def using assms(1-3) f h e sp by simp
  from serve_all [OF this cap order_refl]
  have s: "served (length (workers s)) (exec sched s)"
    and p: "peak sched s = (if length (workers s) = 0 then 0 else 1)"
    and l: "length (workers (exec sched s)) = length (workers s)"
    and pe: "pending (exec sched s) = pending s"
    unfolding sched_def by blast+
  from s l have "served (length (workers (exec sched s))) (exec sched s)"
    by (simp only:)
  then have r: "peak [Close, Drain, Proceed] (exec sched s) = 0"
    and r': "pending (exec sched s) = [] \<longrightarrow>
             main (exec [Close, Drain, Proceed] (exec sched s)) = Returned None"
    using serve_rest by blast+
  from p assms(6) have q: "peak sched s = 1" by simp
  have o: "one_by_one (length (workers s)) = sched @ [Close, Drain, Proceed]"
    unfolding sched_def by (rule one_by_one_eq)
  have "peak (sched @ [Close, Drain, Proceed]) s =
        max (peak sched s) (peak [Close, Drain, Proceed] (exec sched s))"
    by (rule peak_append)
  then have "peak (one_by_one (length (workers s))) s = 1"
    unfolding o q r by simp
  moreover have "main (exec (one_by_one (length (workers s))) s) = Returned None"
    if "pending s = []"
    using that r' pe unfolding o by (simp add: exec_append)
  ultimately show ?thesis by blast
qed

section \<open>Identifiers that parse\<close>

lemma split_on_none: "c \<notin> set xs \<Longrightarrow> split_on c xs = [xs]"
  by (induction xs) auto

lemma split_on_append: "c \<notin> set xs \<Longrightarrow> split_on c (xs @ c # ys) = xs # split_on c ys"
  by (induction xs) auto

lemma split_on_join:
  "list_all (\<lambda>v. c \<notin> set v) vs \<Longrightarrow> vs \<noteq> [] \<Longrightarrow>
     split_on c (concat (map ((#) c) vs)) = [] # vs"
proof (induction vs)
  case Nil
  then show ?case by simp
next
  case (Cons v vs)
  show ?case
  proof (cases vs)
    case Nil
    with Cons.prems show ?thesis by (simp add: split_on_none)
  next
    case (Cons w ws)
    with Cons.IH Cons.prems have "split_on c (concat (map ((#) c) vs)) = [] # vs" by simp
    then have "split_on c (c # v @ concat (map ((#) c) vs)) = [] # v # vs"
      using Cons.prems split_on_append [of c v "tl (concat (map ((#) c) vs))"] Cons
      by simp
    then show ?thesis by simp
  qed
qed

lemma FirewallRuleId_ID_join:
  "FirewallRuleId_ID (NewFirewallRuleID s g n r) =
     concat (map ((#) CHR ''/'')
       [''subscriptions'', s, ''resourceGroups'', g, ''providers'',
        ''Microsoft.DBforPostgreSQL'', ''flexibleServers'', n, ''firewallRules'', r])"
  by (simp add: FirewallRuleId_ID_def NewFirewallRuleID_def)

lemma parseFirewallRuleID_ID:
  assumes "segment_ok s" "segment_ok g" "segment_ok n" "segment_ok r"
  shows "parseFirewallRuleID b (FirewallRuleId_ID (NewFirewallRuleID s g n r)) =
           Inr (NewFirewallRuleID s g n r)"
proof -
  have "split_on CHR ''/'' (FirewallRuleId_ID (NewFirewallRuleID s g n r)) =
      [] # [''subscriptions'', s, ''resourceGroups'', g, ''providers'',
        ''Microsoft.DBforPostgreSQL'', ''flexibleServers'', n, ''firewallRules'', r]"
    unfolding FirewallRuleId_ID_join
    using assms by (intro split_on_join) (simp_all add: segment_ok_def)
  then show ?thesis
    using assms
    by (simp add: parseFirewallRuleID_def parse_path_def FirewallRuleId_Segments_def
        FlexibleServerId_Segments_def segment_ok_def)
qed











section \<open>The diff\<close>

lemma update_fresh: "k \<notin> fst ` set al \<Longrightarrow> AList.update k v al = al @ [(k, v)]"
  by (induction al) auto

lemma fold_update_fresh:
  "distinct (map kf rs) \<Longrightarrow> kf ` set rs \<inter> fst ` set acc = {} \<Longrightarrow>
     fold (\<lambda>r m. AList.update (kf r) (vf r) m) rs acc = acc @ map (\<lambda>r. (kf r, vf r)) rs"
proof (induction rs arbitrary: acc)
  case Nil
  then show ?case by simp
next
  case (Cons r rs)
  from Cons.prems have "kf r \<notin> fst ` set acc" by auto
  then have u: "AList.update (kf r) (vf r) acc = acc @ [(kf r, vf r)]" by (rule update_fresh)
  from Cons.prems have "kf ` set rs \<inter> fst ` set (acc @ [(kf r, vf r)]) = {}" by auto
  with Cons.IH [of "acc @ [(kf r, vf r)]"] Cons.prems u show ?case by simp
qed


lemma FirewallRuleId_ID_inj:
  "FirewallRuleId_ID (NewFirewallRuleID s g n r) = FirewallRuleId_ID (NewFirewallRuleID s g n r') \<longleftrightarrow>
     r = r'"
  by (simp add: FirewallRuleId_ID_def NewFirewallRuleID_def)

lemma firewallRules_distinct:
  assumes "distinct (map Rule.Name rules)"
  shows "firewallRules subscriptionId sid rules =
           map (\<lambda>rule. (FirewallRuleId_ID
                          (NewFirewallRuleID subscriptionId (ResourceGroupName sid)
                             (FlexibleServerName sid) (Rule.Name rule)),
                        fwRule rule)) rules"
proof -
  let ?kf = "\<lambda>rule. FirewallRuleId_ID
               (NewFirewallRuleID subscriptionId (ResourceGroupName sid)
                  (FlexibleServerName sid) (Rule.Name rule))"
  have "inj_on (\<lambda>n. FirewallRuleId_ID
               (NewFirewallRuleID subscriptionId (ResourceGroupName sid)
                  (FlexibleServerName sid) n)) (set (map Rule.Name rules))"
    by (rule inj_onI) (simp add: FirewallRuleId_ID_inj)
  with assms have "distinct (map (\<lambda>n. FirewallRuleId_ID
               (NewFirewallRuleID subscriptionId (ResourceGroupName sid)
                  (FlexibleServerName sid) n)) (map Rule.Name rules))"
    by (simp only: distinct_map)
  then have "distinct (map ?kf rules)" by (simp add: comp_def)
  from fold_update_fresh [OF this, of "[]" fwRule] show ?thesis
    by (simp add: firewallRules_def)
qed






lemma Update_guard_closed:
  assumes "\<not> HasChange metadata ''firewall_rule''"
  shows "workers (Update metadata) = [] \<and> pending (Update metadata) = [] \<and>
         earlier (Update metadata) = [] \<and> \<not> closer (Update metadata) \<and>
         (\<exists>r. main (Update metadata) = Returned r)"
  using assms by (auto simp: Update_def split: sum.splits)

lemma Update_guard_closed_exec:
  assumes "\<not> HasChange metadata ''firewall_rule''"
  shows "exec sched (Update metadata) = Update metadata"
proof -
  from Update_guard_closed [OF assms] obtain r where "main (Update metadata) = Returned r"
    and "workers (Update metadata) = []" and "\<not> closer (Update metadata)" by blast
  then show ?thesis by (rule exec_returned)
qed



















section \<open>Runs of the phases\<close>

lemma start_spawned:
  assumes "s0 = Create metadata \<or> s0 = Update metadata \<or> s0 = Delete metadata"
  shows "earlier s0 = [] \<and> list_all (\<lambda>jw. snd jw = Spawned) (workers s0)"
proof -
  have "earlier (Create metadata) = [] \<and> list_all (\<lambda>jw. snd jw = Spawned) (workers (Create metadata))"
    by (auto simp: Create_def spawnCreateOrUpdate_Spawned split: sum.splits)
  moreover
  have "earlier (Update metadata) = [] \<and> list_all (\<lambda>jw. snd jw = Spawned) (workers (Update metadata))"
    by (auto simp: Update_def list_all_iff split: sum.splits)
  moreover
  have "earlier (Delete metadata) = [] \<and> list_all (\<lambda>jw. snd jw = Spawned) (workers (Delete metadata))"
    using spawnDelete_Spawned
    by (auto simp: Delete_def split: sum.splits prod.splits option.splits) (metis fst_conv)+
  ultimately show ?thesis using assms by blast
qed

text \<open>
  Claim C8, as amended.  In every state of every run of \<open>Create\<close>, \<open>Update\<close> or
  \<open>Delete\<close>, the remote calls in flight are at most \<open>maxConcurrency\<close> and at most the
  workers of the phase that runs; and unless the dispatch loop panicked, some run
  reaches \<open>min N maxConcurrency\<close> calls in flight for the \<open>N\<close> workers of the first
  phase.
\<close>

theorem in_flight_bounded:
  assumes "s0 = Create metadata \<or> s0 = Update metadata \<or> s0 = Delete metadata"
  shows "in_flight (exec sched s0) \<le> min (length (workers (exec sched s0))) maxConcurrency \<and>
         (main s0 \<noteq> Panicked \<longrightarrow>
            (\<exists>sched'. in_flight (exec sched' s0) = min (length (workers s0)) maxConcurrency))"
proof -
  have "coherent s0"
    using assms coherent_Create coherent_Update coherent_Delete by blast
  then have "coherent (exec sched s0)" by (rule coherent_exec)
  then have bound: "in_flight (exec sched s0) \<le> min (length (workers (exec sched s0))) maxConcurrency"
    by (rule in_flight_bound)
  have reach: "\<exists>sched'. in_flight (exec sched' s0) = min (length (workers s0)) maxConcurrency"
    if alive: "main s0 \<noteq> Panicked"
  proof -
    from start_spawned [OF assms] have e: "earlier s0 = []"
      and sp: "list_all (\<lambda>jw. snd jw = Spawned) (workers s0)" by simp_all
    have z: "in_flight s0 = 0" "held s0 = 0"
      using e sp by (simp_all add: in_flight_def held_def count_Spawned)
    have "acquired (min (length (workers s0)) maxConcurrency) s0
            (exec (map Acquire [0..<min (length (workers s0)) maxConcurrency]) s0)"
      using alive z sp by (intro acquire_all) simp_all
    then show ?thesis by (auto simp: acquired_def)
  qed
  from bound reach show ?thesis by blast
qed

lemma spawn_canonical:
  assumes "segment_ok s" and "segment_ok g" and "segment_ok n"
    and "list_all (\<lambda>rule. segment_ok (Rule.Name rule)) rules"
  shows "spawnCreateOrUpdate
           (map (\<lambda>rule. (FirewallRuleId_ID (NewFirewallRuleID s g n (Rule.Name rule)), fwRule rule)) rules) =
         (map (\<lambda>rule. (batchCreateOrUpdate (NewFirewallRuleID s g n (Rule.Name rule)) (fwRule rule),
                       Spawned)) rules, False)"
  using assms(4)
proof (induction rules)
  case Nil
  then show ?case by simp
next
  case (Cons rule rules)
  then have "ParseFirewallRuleID (FirewallRuleId_ID (NewFirewallRuleID s g n (Rule.Name rule))) =
      Inr (NewFirewallRuleID s g n (Rule.Name rule))"
    using assms(1-3) by (simp add: ParseFirewallRuleID_def parseFirewallRuleID_ID)
  with Cons show ?case by simp
qed

lemma Create_many:
  "Create many_metadata =
     dispatchCreateOrUpdate (firewallRules ''sub-a'' example_server many_rules)
       ((listed example_server (locked example_server))\<lparr>on_success := [SetID example_server]\<rparr>)"
proof -
  have p: "ParseFlexibleServerID (FlexibleServerId_ID example_server) = Inr example_server"
    by code_simp
  have s: "SubscriptionId example_server = ''sub-a''"
    by (simp add: example_server_def NewFlexibleServerID_def)
  show ?thesis
    by (simp add: Create_def many_metadata_def p s)
qed

lemma many_rules_ok:
  "distinct (map Rule.Name many_rules)"
  "list_all (\<lambda>rule. segment_ok (Rule.Name rule)) many_rules"
  "length many_rules = 101"
  by code_simp+

text \<open>
  The claim as stated fails: with 101 desired rules, the run of \<open>Create\<close> in which the
  workers take their turns one after the other completes every call and returns
  \<open>nil\<close> with never more than one call in flight.
\<close>

theorem in_flight_counterexample:
  "length (workers (Create many_metadata)) = 101 \<and>
   main (Create many_metadata) = Ranging \<and>
   peak (one_by_one 101) (Create many_metadata) = 1 \<and>
   main (exec (one_by_one 101) (Create many_metadata)) = Returned None \<and>
   min 101 maxConcurrency = 100"
proof -
  let ?start = "(listed example_server (locked example_server))\<lparr>on_success := [SetID example_server]\<rparr>"
  have ok: "segment_ok ''sub-a''" "segment_ok (ResourceGroupName example_server)"
    "segment_ok (FlexibleServerName example_server)"
    by (simp_all add: segment_ok_def example_server_def NewFlexibleServerID_def)
  have sp: "spawnCreateOrUpdate (firewallRules ''sub-a'' example_server many_rules) =
      (map (\<lambda>rule. (batchCreateOrUpdate
                      (NewFirewallRuleID ''sub-a'' (ResourceGroupName example_server)
                         (FlexibleServerName example_server) (Rule.Name rule)) (fwRule rule),
                    Spawned)) many_rules, False)"
    unfolding firewallRules_distinct [OF many_rules_ok(1)]
    using ok many_rules_ok(2) by (rule spawn_canonical)
  have w: "length (workers (Create many_metadata)) = 101"
    unfolding Create_many by (simp add: sp many_rules_ok(3))
  have m: "main (Create many_metadata) = Ranging" "closer (Create many_metadata)"
    "\<not> errs_closed (Create many_metadata)" "pending (Create many_metadata) = []"
    "list_all (\<lambda>jw. snd jw = Finished None) (earlier (Create many_metadata))"
    unfolding Create_many by (simp_all add: sp)
  have a: "list_all (\<lambda>jw. snd jw = Spawned) (workers (Create many_metadata))"
    unfolding Create_many by (simp add: spawnCreateOrUpdate_Spawned)
  have n: "workers (Create many_metadata) \<noteq> []"
    using w by auto
  from one_by_one_peak [OF m(1-3) a m(5) n] w m(4)
  have "peak (one_by_one 101) (Create many_metadata) = 1"
    and "main (exec (one_by_one 101) (Create many_metadata)) = Returned None"
    by simp_all
  with w m(1) show ?thesis by (simp add: maxConcurrency_def)
qed

theorem in_flight_bounded_witness:
  "in_flight (exec [Acquire 0, Acquire 1]
      (Update (example_metadata (\<lambda>k. True) ''sub-a'' [remote_A, remote_C]))) \<le>
     min (length (workers (exec [Acquire 0, Acquire 1]
            (Update (example_metadata (\<lambda>k. True) ''sub-a'' [remote_A, remote_C]))))) maxConcurrency \<and>
   (\<exists>sched'. in_flight (exec sched'
      (Update (example_metadata (\<lambda>k. True) ''sub-a'' [remote_A, remote_C]))) =
      min (length (workers (Update (example_metadata (\<lambda>k. True) ''sub-a'' [remote_A, remote_C]))))
        maxConcurrency)"
proof -
  have "main (Update (example_metadata (\<lambda>k. True) ''sub-a'' [remote_A, remote_C])) \<noteq> Panicked"
    by code_simp
  with in_flight_bounded [of "Update (example_metadata (\<lambda>k. True) ''sub-a'' [remote_A, remote_C])"
      "example_metadata (\<lambda>k. True) ''sub-a'' [remote_A, remote_C]" "[Acquire 0, Acquire 1]"]
  show ?thesis by blast
qed

lemma step_stuck:
  assumes "main s = Returned r" and "list_all (\<lambda>jw. blocked (snd jw)) (workers s)"
    and "\<not> wg_zero s"
  shows "step a s = s"
proof -
  have b: "blocked w" if "at i s = Some w" for i w
    using assms(2) that by (auto simp: at_Some list_all_length)
  show ?thesis
    using assms(1,3) by (cases a) (auto split: option.splits wstate.splits dest: b)
qed

lemma exec_stuck:
  assumes "main s = Returned r" and "list_all (\<lambda>jw. blocked (snd jw)) (workers s)"
    and "\<not> wg_zero s"
  shows "exec sched s = s"
  unfolding exec_def by (induction sched) (simp_all add: step_stuck [OF assms])

text \<open>
  Claim C1 fails on the code.  \<open>Create\<close> with two desired rules, the first result
  received being an error: the call has returned that error with one of two results
  collected, the second worker is blocked in its send on \<open>errs\<close> holding its permit,
  and no step of any goroutine changes that state again.
\<close>

theorem Create_returns_early:
  "main (exec first_fails (Create (example_metadata (\<lambda>k. True) ''sub-a'' []))) =
     Returned (Some (RemoteError ''conflict'')) \<and>
   map snd (workers (exec first_fails (Create (example_metadata (\<lambda>k. True) ''sub-a'' [])))) =
     [Finished (Some (RemoteError ''conflict'')), Sending None] \<and>
   collected (exec first_fails (Create (example_metadata (\<lambda>k. True) ''sub-a'' []))) = 1 \<and>
   held (exec first_fails (Create (example_metadata (\<lambda>k. True) ''sub-a'' []))) = 1 \<and>
   exec sched (exec first_fails (Create (example_metadata (\<lambda>k. True) ''sub-a'' []))) =
     exec first_fails (Create (example_metadata (\<lambda>k. True) ''sub-a'' []))"
proof -
  let ?s = "exec first_fails (Create (example_metadata (\<lambda>k. True) ''sub-a'' []))"
  have m: "main ?s = Returned (Some (RemoteError ''conflict''))"
    by code_simp
  have w: "map snd (workers ?s) = [Finished (Some (RemoteError ''conflict'')), Sending None]"
    by code_simp
  have c: "collected ?s = 1" by code_simp
  have h: "held ?s = 1" by code_simp
  have e: "earlier ?s = []" by code_simp
  from w obtain j0 j1 where ws: "workers ?s = [(j0, Finished (Some (RemoteError ''conflict''))), (j1, Sending None)]"
    by (auto simp: map_eq_Cons_conv)
  have "exec sched ?s = ?s"
    using m by (rule exec_stuck) (simp_all add: ws e wg_zero_def)
  with m w c h show ?thesis by simp
qed

text \<open>
  Claim C4 fails on the code.  \<open>Update\<close> asks \<open>HasChange\<close> for \<open>firewall_rule\<close>, while
  the schema's attribute is \<open>rule\<close>.  With \<open>rule\<close> changed, desired rules \<open>A\<close> and \<open>B\<close>
  and remote rules \<open>A\<close> and \<open>C\<close>, the call takes the lock, gives it back and returns
  \<open>nil\<close>: it does not list, and no worker is ever started.
\<close>

theorem Update_without_reconciling:
  "''firewall_rule'' \<notin> set Arguments \<and> ''rule'' \<in> set Arguments \<and>
   main (Update (example_metadata (\<lambda>k. k = ''rule'') ''sub-a'' [remote_A, remote_C])) = Returned None \<and>
   events (Update (example_metadata (\<lambda>k. k = ''rule'') ''sub-a'' [remote_A, remote_C])) =
     [locks_ByName ''srv'', locks_UnlockByName ''srv''] \<and>
   workers (Update (example_metadata (\<lambda>k. k = ''rule'') ''sub-a'' [remote_A, remote_C])) = [] \<and>
   pending (Update (example_metadata (\<lambda>k. k = ''rule'') ''sub-a'' [remote_A, remote_C])) = [] \<and>
   exec sched (Update (example_metadata (\<lambda>k. k = ''rule'') ''sub-a'' [remote_A, remote_C])) =
     Update (example_metadata (\<lambda>k. k = ''rule'') ''sub-a'' [remote_A, remote_C])"
proof -
  let ?u = "Update (example_metadata (\<lambda>k. k = ''rule'') ''sub-a'' [remote_A, remote_C])"
  have m: "main ?u = Returned None" by code_simp
  have e: "events ?u = [locks_ByName ''srv'', locks_UnlockByName ''srv'']" by code_simp
  have w: "workers ?u = []" by code_simp
  have p: "pending ?u = []" by code_simp
  have c: "\<not> closer ?u" by code_simp
  from m w c have "exec sched ?u = ?u" by (rule exec_returned)
  with m e w p show ?thesis by (simp add: Arguments_def)
qed



lemma count_all:
  "list_all (\<lambda>jw. snd jw = Finished None) ws \<Longrightarrow> P (Finished None) \<Longrightarrow> count P ws = length ws"
  by (induction ws) auto

text \<open>
  When a call has returned \<open>nil\<close>, every worker it started has ended after the range
  loop received \<open>nil\<close> from it, and no permit is held.
\<close>

theorem nil_return_complete:
  assumes "s0 = Create metadata \<or> s0 = Update metadata \<or> s0 = Delete metadata"
    and "s = exec sched s0"
    and "main s = Returned None"
  shows "list_all (\<lambda>jw. snd jw = Finished None) (earlier s @ workers s) \<and>
         collected s = length (workers s) \<and> held s = 0"
proof -
  have "coherent s0"
    using assms(1) coherent_Create coherent_Update coherent_Delete by blast
  then have "coherent s"
    unfolding assms(2) by (rule coherent_exec)
  with assms(3) have e: "list_all (\<lambda>jw. snd jw = Finished None) (earlier s)"
    and w: "list_all (\<lambda>jw. snd jw = Finished None) (workers s)"
    by (simp_all add: coherent_def)
  from w have "collected s = length (workers s)"
    unfolding collected_def by (rule count_all) simp
  moreover from e w have "held s = 0"
    by (simp add: held_def count_Finished)
  ultimately show ?thesis using e w by simp
qed

theorem nil_return_complete_witness:
  "main (exec (one_by_one 2) (Create (example_metadata (\<lambda>k. True) ''sub-a'' []))) = Returned None \<and>
   collected (exec (one_by_one 2) (Create (example_metadata (\<lambda>k. True) ''sub-a'' []))) = 2 \<and>
   held (exec (one_by_one 2) (Create (example_metadata (\<lambda>k. True) ''sub-a'' []))) = 0"
proof -
  let ?s = "exec (one_by_one 2) (Create (example_metadata (\<lambda>k. True) ''sub-a'' []))"
  have m: "main ?s = Returned None" by code_simp
  have l: "length (workers ?s) = 2" by code_simp
  from nil_return_complete [OF _ refl m, of "example_metadata (\<lambda>k. True) ''sub-a'' []"] m l
  show ?thesis by simp
qed

end
